theory Spec2Isabelle
  imports Main "HOL-Library.Multiset"
begin

section \<open>Values, errors and the state of a view\<close>

text \<open>
  The development embeds \<^verbatim>\<open>src/array/DynArrayReducer.ts\<close>. Arrays are JavaScript objects
  shared by reference between the view and its callers, so they live in an explicit heap:
  a list of arrays, an array's address being its position in that list. Allocating a new
  array (\<^verbatim>\<open>[...data]\<close>) appends to the heap. A JavaScript reference always points to
  an object, so an address beyond the heap does not arise; \<open>deref\<close> reads it as the empty
  array.
\<close>

type_synonym 'a heap = "'a list list"

definition deref :: "'a heap \<Rightarrow> nat \<Rightarrow> 'a list" where
  "deref h a = (if a < length h then h ! a else [])"

definition alloc :: "'a heap \<Rightarrow> 'a list \<Rightarrow> 'a heap \<times> nat" where
  "alloc h xs = (h @ [xs], length h)"

text \<open>
  A filter entry (\<^verbatim>\<open>DataFilter\<close>): the predicate and its weight. A comparator returns a
  number of which only the sign is used; it is an integer here.
\<close>

record 'a DataFilter =
  filterFn :: "'a \<Rightarrow> bool"
  weight :: nat

datatype jsprim = PBool bool | PNum int | PStr string

text \<open>
  The value of the \<^verbatim>\<open>filters\<close> attribute of a configuration object, as far as the
  constructor inspects it: undefined, an iterable of filter entries, or anything that is
  not iterable.
\<close>

datatype 'a jsfilters = FUndefined | FIterable "'a DataFilter list" | FNotIterable

text \<open>
  The values a caller can pass for \<^verbatim>\<open>data\<close>, \<^verbatim>\<open>replace\<close> and \<^verbatim>\<open>reversed\<close>.
  \<open>JArr a\<close> is a reference to the array at address \<open>a\<close>; \<open>JIter xs\<close> is an iterable
  object that is not an array (a Set, a generator), given by the items it yields;
  \<open>JFunction c\<close> is a function, given by what it returns when called on two elements;
  \<open>JObj d f s\<close> is any other object, given by its attributes \<^verbatim>\<open>data\<close>, \<^verbatim>\<open>filters\<close> and
  \<^verbatim>\<open>sort\<close>, where \<open>None\<close> says that the key is not in the object.
\<close>

datatype 'a jsval =
    JUndefined
  | JNull
  | JPrim jsprim
  | JFunction "'a \<Rightarrow> 'a \<Rightarrow> int"
  | JArr nat
  | JIter "'a list"
  | JObj "'a jsval option" "'a jsfilters option" "'a jsval option"

datatype jstype = TUndefined | TObject | TBoolean | TNumber | TString | TFunction

fun typeof :: "'a jsval \<Rightarrow> jstype" where
  "typeof JUndefined = TUndefined"
| "typeof JNull = TObject"
| "typeof (JPrim (PBool _)) = TBoolean"
| "typeof (JPrim (PNum _)) = TNumber"
| "typeof (JPrim (PStr _)) = TString"
| "typeof (JFunction _) = TFunction"
| "typeof (JArr _) = TObject"
| "typeof (JIter _) = TObject"
| "typeof (JObj _ _ _) = TObject"

text \<open>
  Modelled from the spec: \<^verbatim>\<open>DynReducerUtils.isIterable\<close> is imported from
  \<^verbatim>\<open>../common/index.js\<close>, which is not among the sources. The spec speaks of
  "an ordered-sequence reference" or "any other finite iterable" as the legal data, and of
  everything else as non-iterable: the test holds of arrays and of iterable objects only.
\<close>

fun isIterable :: "'a jsval \<Rightarrow> bool" where
  "isIterable (JArr _) = True"
| "isIterable (JIter _) = True"
| "isIterable _ = False"

text \<open>
  The items an iterable yields when it is spread, read from the heap as it is then.
  Spreading is reached with an iterable only: the checks in front of it throw otherwise.
\<close>

fun spread :: "'a heap \<Rightarrow> 'a jsval \<Rightarrow> 'a list" where
  "spread h (JArr b) = deref h b"
| "spread h (JIter xs) = xs"
| "spread h _ = []"

text \<open>Every error of the class is a \<^verbatim>\<open>TypeError\<close>; the constructors tell the messages apart.\<close>

datatype error =
    DataNotIterable
  | AttrDataNotIterable
  | AttrFiltersNotIterable
  | AttrSortNotFunction
  | ReversedNotBoolean
  | ReplaceNotBoolean
  | InOperatorOnPrimitive

text \<open>
  The private fields of \<^verbatim>\<open>DynArrayReducer\<close>, with the heap they point into.
  \<open>array0\<close> is \<^verbatim>\<open>#array[0]\<close>: \<open>None\<close> for \<^verbatim>\<open>null\<close>, or the address of the backing
  array. \<open>filters\<close> is \<^verbatim>\<open>#filtersAdapter.filters\<close>, \<open>compareFn\<close> is
  \<^verbatim>\<open>#sortAdapter.compareFn\<close>. \<open>index\<close> and \<open>index_reversed\<close> are the state of the
  \<^verbatim>\<open>Indexer\<close>: the virtual ordering (\<open>None\<close> when inactive) and its copy of the reversed
  flag. Handlers are functions compared by identity, so a handler is its identity, a
  number; \<open>calls\<close> is the trace of handler invocations, oldest first. A handler's body is
  opaque: the model records that it ran and lets it change nothing.
\<close>

record 'a reducer =
  heap :: "'a heap"
  array0 :: "nat option"
  filters :: "'a DataFilter list"
  compareFn :: "('a \<Rightarrow> 'a \<Rightarrow> int) option"
  reversed :: bool
  index_reversed :: bool
  index :: "nat list option"
  subscriptions :: "nat list"
  calls :: "nat list"

section \<open>Subscription fan-out\<close>

text \<open>
  \<^verbatim>\<open>#updateSubscribers\<close>: the counting loop over \<^verbatim>\<open>#subscriptions\<close>, which reads the
  length again at every round.
\<close>

function updateSubscribers_loop :: "nat \<Rightarrow> 'a reducer \<Rightarrow> 'a reducer" where
  "updateSubscribers_loop cntr r =
     (if cntr < length (subscriptions r)
      then updateSubscribers_loop (cntr + 1) (r\<lparr>calls := calls r @ [subscriptions r ! cntr]\<rparr>)
      else r)"
  by pat_completeness auto
termination
  by (relation "measure (\<lambda>(cntr, r). length (subscriptions r) - cntr)") auto

declare updateSubscribers_loop.simps [simp del]

definition updateSubscribers :: "'a reducer \<Rightarrow> 'a reducer" where
  "updateSubscribers r = updateSubscribers_loop 0 r"

text \<open>\<^verbatim>\<open>Array.prototype.findIndex\<close> with the test \<^verbatim>\<open>sub === handler\<close>: the first match, or -1.\<close>

fun findIndex_from :: "int \<Rightarrow> nat \<Rightarrow> nat list \<Rightarrow> int" where
  "findIndex_from i handler [] = -1"
| "findIndex_from i handler (sub # subs) =
     (if sub = handler then i else findIndex_from (i + 1) handler subs)"

definition findIndex :: "nat \<Rightarrow> nat list \<Rightarrow> int" where
  "findIndex handler subs = findIndex_from 0 handler subs"

text \<open>\<^verbatim>\<open>splice(index, 1)\<close> for an index that is not negative.\<close>

definition splice1 :: "nat \<Rightarrow> 'b list \<Rightarrow> 'b list" where
  "splice1 i xs = take i xs @ drop (i + 1) xs"

text \<open>
  \<^verbatim>\<open>subscribe(handler)\<close> pushes the handler, calls it, and returns a closure. The closure
  captures only \<^verbatim>\<open>handler\<close>, so the function returned by \<open>subscribe handler\<close> is
  \<open>unsubscribe handler\<close>. \<^verbatim>\<open>DerivedArrayReducer\<close> has the same two methods, word for word.
\<close>

definition subscribe :: "nat \<Rightarrow> 'a reducer \<Rightarrow> 'a reducer" where
  "subscribe handler r =
     (let r1 = r\<lparr>subscriptions := subscriptions r @ [handler]\<rparr>
      in r1\<lparr>calls := calls r1 @ [handler]\<rparr>)"

definition unsubscribe :: "nat \<Rightarrow> 'a reducer \<Rightarrow> 'a reducer" where
  "unsubscribe handler r =
     (let i = findIndex handler (subscriptions r)
      in if i \<ge> 0 then r\<lparr>subscriptions := splice1 (nat i) (subscriptions r)\<rparr> else r)"

section \<open>The indexer and the registries\<close>

text \<open>
  The class imports \<^verbatim>\<open>Indexer\<close> from \<^verbatim>\<open>./Indexer.js\<close> and \<^verbatim>\<open>IndexerAPI\<close>,
  \<^verbatim>\<open>AdapterFilters\<close>, \<^verbatim>\<open>AdapterSort\<close> and \<^verbatim>\<open>AdapterDerived\<close> from
  \<^verbatim>\<open>../common/index.js\<close>; none of these files is among the sources. Every definition of
  this section stands for a part of them and follows sections 3, 4.2, 4.3 and 4.4 of the
  specification. No derived view is created in this development, so the cascade to
  derived views does nothing.
\<close>

text \<open>
  Modelled from the spec: the getter \<^verbatim>\<open>isActive\<close> of the missing \<^verbatim>\<open>Indexer\<close>. "Active
  whenever at least one filter or a comparator is registered on that view."
\<close>

definition isActive :: "'a reducer \<Rightarrow> bool" where
  "isActive r = (length (filters r) > 0 \<or> (case compareFn r of None \<Rightarrow> False | Some _ \<Rightarrow> True))"

text \<open>The backing sequence a view reads: empty when the store is absent.\<close>

definition backing :: "'a reducer \<Rightarrow> 'a list" where
  "backing r = (case array0 r of None \<Rightarrow> [] | Some a \<Rightarrow> deref (heap r) a)"

text \<open>
  Modelled from the spec: the filter test of the missing \<^verbatim>\<open>Indexer\<close>. "An element is
  visible iff every active filter predicate returns true for it; evaluation
  short-circuits on first false", in the order of the registry.
\<close>

fun accepts :: "'a DataFilter list \<Rightarrow> 'a \<Rightarrow> bool" where
  "accepts [] x = True"
| "accepts (f # fs) x = (if filterFn f x then accepts fs x else False)"

text \<open>
  Modelled from the spec: the enumeration loop of the missing \<^verbatim>\<open>Indexer\<close>. "Enumerate
  backing positions 0..n-1 in original order; retain a position iff all active filters
  accept the element at that position."
\<close>

fun retain :: "'a DataFilter list \<Rightarrow> nat \<Rightarrow> 'a list \<Rightarrow> nat list" where
  "retain fs cntr [] = []"
| "retain fs cntr (x # xs) =
     (if accepts fs x then cntr # retain fs (cntr + 1) xs else retain fs (cntr + 1) xs)"

text \<open>
  Modelled from the spec: the sort of the missing \<^verbatim>\<open>Indexer\<close>. "If a comparator is
  active, stable-sort the retained positions by comparing the elements at those
  positions (ties preserve retained order)." The specification names no algorithm; the
  stable sort here is an insertion sort, in which a position moves behind those positions
  only whose elements the comparator puts strictly before its own. The positions it
  compares come from the enumeration, so they are within the array.
\<close>

fun insert_stable :: "('a \<Rightarrow> 'a \<Rightarrow> int) \<Rightarrow> 'a list \<Rightarrow> nat \<Rightarrow> nat list \<Rightarrow> nat list" where
  "insert_stable cmp arr p [] = [p]"
| "insert_stable cmp arr p (q # qs) =
     (if cmp (arr ! p) (arr ! q) > 0 then q # insert_stable cmp arr p qs else p # q # qs)"

fun stable_sort :: "('a \<Rightarrow> 'a \<Rightarrow> int) \<Rightarrow> 'a list \<Rightarrow> nat list \<Rightarrow> nat list" where
  "stable_sort cmp arr [] = []"
| "stable_sort cmp arr (p # ps) = insert_stable cmp arr p (stable_sort cmp arr ps)"

text \<open>
  Modelled from the spec: the rebuild of the missing \<^verbatim>\<open>Indexer\<close>, the enumeration
  followed by the sort when a comparator is active.
\<close>

definition rebuild :: "'a DataFilter list \<Rightarrow> ('a \<Rightarrow> 'a \<Rightarrow> int) option \<Rightarrow> 'a list \<Rightarrow> nat list" where
  "rebuild fs cmp_opt arr =
     (let kept = retain fs 0 arr
      in case cmp_opt of None \<Rightarrow> kept | Some cmp \<Rightarrow> stable_sort cmp arr kept)"

text \<open>
  Modelled from the spec: \<^verbatim>\<open>update(force)\<close> of the missing \<^verbatim>\<open>Indexer\<close>, the
  specification's \<open>recompute(force)\<close>. "If both Filter Registry and Sort Registry are
  empty, the ordering is set to inactive"; otherwise it is rebuilt from scratch.
  Subscribers are notified whatever \<open>force\<close> is: "there is no dedup". The notification
  callback is the class's own \<^verbatim>\<open>#updateSubscribers\<close>, handed to the indexer by the
  constructor.
\<close>

definition indexer_update :: "bool \<Rightarrow> 'a reducer \<Rightarrow> 'a reducer" where
  "indexer_update force r =
     (let ix = (if isActive r then Some (rebuild (filters r) (compareFn r) (backing r)) else None)
      in updateSubscribers (r\<lparr>index := ix\<rparr>))"

text \<open>
  Modelled from the spec: \<^verbatim>\<open>length\<close> and the iterator of the missing \<^verbatim>\<open>IndexerAPI\<close>.
  The length is that of the virtual ordering; the iteration runs over the stored ordering
  "in forward order, or in reverse order if Reversed Flag is set".
\<close>

definition index_length :: "'a reducer \<Rightarrow> nat" where
  "index_length r = (case index r of None \<Rightarrow> 0 | Some ix \<Rightarrow> length ix)"

definition index_iter :: "'a reducer \<Rightarrow> nat list" where
  "index_iter r =
     (case index r of None \<Rightarrow> [] | Some ix \<Rightarrow> if index_reversed r then rev ix else ix)"

text \<open>
  Modelled from the spec: \<^verbatim>\<open>add\<close> of the missing \<^verbatim>\<open>AdapterFilters\<close> and \<^verbatim>\<open>set\<close> of
  the missing \<^verbatim>\<open>AdapterSort\<close>. The filter registry keeps its entries by ascending
  weight, entries of equal weight in the order of registration; \<open>add\<close> takes its
  arguments in order and asks for a recompute. \<open>set\<close> installs or removes the comparator
  and asks for a recompute.
\<close>

fun insert_filter :: "'a DataFilter \<Rightarrow> 'a DataFilter list \<Rightarrow> 'a DataFilter list" where
  "insert_filter f [] = [f]"
| "insert_filter f (g # gs) =
     (if weight f < weight g then f # g # gs else g # insert_filter f gs)"

definition filters_add :: "'a DataFilter list \<Rightarrow> 'a reducer \<Rightarrow> 'a reducer" where
  "filters_add fs r =
     indexer_update False (r\<lparr>filters := foldl (\<lambda>acc f. insert_filter f acc) (filters r) fs\<rparr>)"

definition sort_set :: "('a \<Rightarrow> 'a \<Rightarrow> int) option \<Rightarrow> 'a reducer \<Rightarrow> 'a reducer" where
  "sort_set cmp_opt r = indexer_update False (r\<lparr>compareFn := cmp_opt\<rparr>)"

section \<open>The class DynArrayReducer\<close>

fun isNull :: "'a jsval \<Rightarrow> bool" where
  "isNull JNull = True"
| "isNull _ = False"

fun isUndefined :: "'a jsval \<Rightarrow> bool" where
  "isUndefined JUndefined = True"
| "isUndefined _ = False"

text \<open>The truth value of a value in a condition.\<close>

fun truthy :: "'a jsval \<Rightarrow> bool" where
  "truthy JUndefined = False"
| "truthy JNull = False"
| "truthy (JPrim (PBool b)) = b"
| "truthy (JPrim (PNum n)) = (n \<noteq> 0)"
| "truthy (JPrim (PStr s)) = (s \<noteq> [])"
| "truthy _ = True"

fun the_boolean :: "'a jsval \<Rightarrow> bool" where
  "the_boolean (JPrim (PBool b)) = b"
| "the_boolean _ = False"

text \<open>An element read at a position: \<^verbatim>\<open>undefined\<close> (\<open>None\<close>) beyond the array's end.\<close>

definition js_nth :: "'a list \<Rightarrow> nat \<Rightarrow> 'a option" where
  "js_nth xs i = (if i < length xs then Some (xs ! i) else None)"

text \<open>
  \<^verbatim>\<open>Array.isArray(x) ? x : [...x]\<close> stored into \<^verbatim>\<open>#array[0]\<close>: an array is installed
  by reference, any other iterable is copied into a new array.
\<close>

definition install :: "'a jsval \<Rightarrow> 'a reducer \<Rightarrow> 'a reducer" where
  "install data r =
     (case data of
        JArr b \<Rightarrow> r\<lparr>array0 := Some b\<rparr>
      | _ \<Rightarrow> (let (h, a) = alloc (heap r) (spread (heap r) data)
              in r\<lparr>heap := h, array0 := Some a\<rparr>))"

subsection \<open>The constructor\<close>

definition init :: "'a heap \<Rightarrow> 'a reducer" where
  "init h = \<lparr>heap = h, array0 = None, filters = [], compareFn = None, reversed = False,
     index_reversed = False, index = None, subscriptions = [], calls = []\<rparr>"

text \<open>Lines 80 to 109: the attributes of a configuration object.\<close>

definition parse_config ::
  "'a jsval option \<Rightarrow> 'a jsfilters option \<Rightarrow> 'a jsval option \<Rightarrow>
   error + ('a jsval \<times> 'a DataFilter list option \<times> ('a \<Rightarrow> 'a \<Rightarrow> int) option)" where
  "parse_config d f s =
     (let data_attr = (case d of None \<Rightarrow> JUndefined | Some v \<Rightarrow> v);
          filters_attr = (case f of None \<Rightarrow> FUndefined | Some v \<Rightarrow> v);
          sort_attr = (case s of None \<Rightarrow> JUndefined | Some v \<Rightarrow> v)
      in if \<not> isUndefined data_attr \<and> \<not> isIterable data_attr then Inl AttrDataNotIterable
         else case filters_attr of
           FNotIterable \<Rightarrow> Inl AttrFiltersNotIterable
         | _ \<Rightarrow>
           (let fs = (case filters_attr of FIterable xs \<Rightarrow> Some xs | _ \<Rightarrow> None)
            in if isUndefined sort_attr then Inr (data_attr, fs, None)
               else case sort_attr of
                 JFunction c \<Rightarrow> Inr (data_attr, fs, Some c)
               | _ \<Rightarrow> Inl AttrSortNotFunction))"

text \<open>
  Lines 74 to 110. The operator \<^verbatim>\<open>in\<close> throws a \<^verbatim>\<open>TypeError\<close> when its right operand is
  not an object; the checks before it let no such value through.
\<close>

fun parse_args ::
  "'a jsval \<Rightarrow> error + ('a jsval \<times> 'a DataFilter list option \<times> ('a \<Rightarrow> 'a \<Rightarrow> int) option)" where
  "parse_args JUndefined = Inr (JUndefined, None, None)"
| "parse_args (JArr a) = Inr (JArr a, None, None)"
| "parse_args (JIter xs) = Inr (JIter xs, None, None)"
| "parse_args (JObj d f s) =
     (if d \<noteq> None \<or> f \<noteq> None \<or> s \<noteq> None then parse_config d f s
      else Inr (JUndefined, None, None))"
| "parse_args _ = Inl InOperatorOnPrimitive"

definition constructor :: "'a jsval \<Rightarrow> 'a heap \<Rightarrow> error + 'a reducer" where
  "constructor data h =
     (if isNull data then Inl DataNotIterable
      else if \<not> isUndefined data \<and> typeof data \<noteq> TObject \<and> \<not> isIterable data
      then Inl DataNotIterable
      else case parse_args data of
        Inl e \<Rightarrow> Inl e
      | Inr (dataIterable, fs, srt) \<Rightarrow>
          (let r0 = init h;
               r1 = (if truthy dataIterable then install dataIterable r0 else r0);
               r2 = (case fs of None \<Rightarrow> r1 | Some xs \<Rightarrow> filters_add xs r1);
               r3 = (case srt of None \<Rightarrow> r2 | Some c \<Rightarrow> sort_set (Some c) r2)
           in Inr r3))"

subsection \<open>The length getter and the iterator\<close>

definition get_length :: "'a reducer \<Rightarrow> nat" where
  "get_length r =
     (if isActive r then index_length r
      else case array0 r of None \<Rightarrow> 0 | Some a \<Rightarrow> length (deref (heap r) a))"

text \<open>\<^verbatim>\<open>for (let cntr = array.length; --cntr >= 0;) { yield array[cntr]; }\<close>\<close>

fun yield_down :: "'a list \<Rightarrow> nat \<Rightarrow> 'a option list" where
  "yield_down array 0 = []"
| "yield_down array (Suc cntr) = js_nth array cntr # yield_down array cntr"

text \<open>\<^verbatim>\<open>for (let cntr = 0; cntr < array.length; cntr++) { yield array[cntr]; }\<close>\<close>

function yield_up :: "'a list \<Rightarrow> nat \<Rightarrow> 'a option list" where
  "yield_up array cntr =
     (if cntr < length array then js_nth array cntr # yield_up array (cntr + 1) else [])"
  by pat_completeness auto
termination
  by (relation "measure (\<lambda>(array, cntr). length array - cntr)") auto

declare yield_up.simps [simp del]

text \<open>The generator, as the list of what it yields.\<close>

definition iterate :: "'a reducer \<Rightarrow> 'a option list" where
  "iterate r =
     (case array0 r of
        None \<Rightarrow> []
      | Some a \<Rightarrow>
          (let array = deref (heap r) a
           in if length array = 0 then []
              else if isActive r then map (js_nth array) (index_iter r)
              else if reversed r then yield_down array (length array)
              else yield_up array 0))"

subsection \<open>The reversed setter and setData\<close>

text \<open>
  An operation that can throw returns the error, if any, with the state it leaves
  behind: \<open>Some e\<close> says that \<open>e\<close> was thrown.
\<close>

definition set_reversed :: "'a jsval \<Rightarrow> 'a reducer \<Rightarrow> error option \<times> 'a reducer" where
  "set_reversed v r =
     (if typeof v \<noteq> TBoolean then (Some ReversedNotBoolean, r)
      else (let r1 = r\<lparr>reversed := the_boolean v\<rparr>;
                r2 = r1\<lparr>index_reversed := the_boolean v\<rparr>
            in (None, indexer_update True r2)))"

text \<open>
  \<^verbatim>\<open>setData(data, replace = false)\<close>: an undefined second argument takes the default.
  In place, \<^verbatim>\<open>array.length = 0\<close> empties the backing array and \<^verbatim>\<open>array.push(...data)\<close>
  then spreads \<open>data\<close> as it is at that moment.
\<close>

definition setData :: "'a jsval \<Rightarrow> 'a jsval \<Rightarrow> 'a reducer \<Rightarrow> error option \<times> 'a reducer" where
  "setData data replace_arg r =
     (let replace = (if isUndefined replace_arg then JPrim (PBool False) else replace_arg)
      in if \<not> isNull data \<and> \<not> isIterable data then (Some DataNotIterable, r)
         else if typeof replace \<noteq> TBoolean then (Some ReplaceNotBoolean, r)
         else
           (let r1 =
              (if array0 r = None \<or> the_boolean replace
               then (if truthy data then install data r else r)
               else case array0 r of
                 None \<Rightarrow> r
               | Some array \<Rightarrow>
                   if truthy data
                   then (let h1 = (heap r)[array := []];
                             h2 = h1[array := deref h1 array @ spread h1 data]
                         in r\<lparr>heap := h2\<rparr>)
                   else r\<lparr>array0 := None\<rparr>)
            in (None, indexer_update True r1)))"

section \<open>Notions used to state the properties\<close>

text \<open>
  In a list of distinct positions, \<open>p\<close> comes before \<open>q\<close>, both being there.
\<close>

definition keeps_order :: "nat \<Rightarrow> nat \<Rightarrow> nat list \<Rightarrow> bool" where
  "keeps_order p q xs = (filter (\<lambda>r. r = p \<or> r = q) xs = [p, q])"

text \<open>
  A comparator orders the elements of an array consistently when "not after" is total and
  transitive on them.
\<close>

definition consistent :: "('a \<Rightarrow> 'a \<Rightarrow> int) \<Rightarrow> 'a list \<Rightarrow> bool" where
  "consistent cmp arr =
     ((\<forall>a \<in> set arr. \<forall>b \<in> set arr. cmp a b > 0 \<longrightarrow> cmp b a \<le> 0) \<and>
      (\<forall>a \<in> set arr. \<forall>b \<in> set arr. \<forall>c \<in> set arr.
          cmp a b \<le> 0 \<and> cmp b c \<le> 0 \<longrightarrow> cmp a c \<le> 0))"

text \<open>The comparator of the specification's example: records \<open>{k, v}\<close> sorted by \<open>k\<close>.\<close>

definition by_key :: "int \<times> string \<Rightarrow> int \<times> string \<Rightarrow> int" where
  "by_key a b = fst a - fst b"

text \<open>
  The length of a view in the words of the specification: "Virtual Ordering length if
  active, else backing sequence length (0 if absent)".
\<close>

definition spec_length :: "'a reducer \<Rightarrow> nat" where
  "spec_length r =
     (if isActive r then (case index r of None \<Rightarrow> 0 | Some ix \<Rightarrow> length ix)
      else length (backing r))"

text \<open>
  Example views: one over the array \<open>[10, 20, 30]\<close> at address 0, the same with a filter
  keeping the elements above 15, and one over \<open>[3, 1, 2]\<close> sorted in ascending order.
\<close>

definition example_view :: "int reducer" where
  "example_view = install (JArr 0) (init [[10, 20, 30]])"

definition example_filtered :: "int reducer" where
  "example_filtered = filters_add [\<lparr>filterFn = (\<lambda>x. 15 < x), weight = 1\<rparr>] example_view"

definition example_sorted :: "int reducer" where
  "example_sorted = sort_set (Some (\<lambda>a b. a - b)) (install (JArr 0) (init [[3, 1, 2]]))"

section \<open>Facts about the subscription fan-out\<close>

lemma updateSubscribers_loop_eq:
  "updateSubscribers_loop cntr r = r\<lparr>calls := calls r @ drop cntr (subscriptions r)\<rparr>"
proof (induction cntr r rule: updateSubscribers_loop.induct)
  case (1 cntr r)
  show ?case
  proof (cases "cntr < length (subscriptions r)")
    case True
    let ?r1 = "r\<lparr>calls := calls r @ [subscriptions r ! cntr]\<rparr>"
    have "updateSubscribers_loop cntr r = updateSubscribers_loop (cntr + 1) ?r1"
      using True by (subst updateSubscribers_loop.simps) simp
    also have "\<dots> = ?r1\<lparr>calls := calls ?r1 @ drop (cntr + 1) (subscriptions ?r1)\<rparr>"
      by (rule "1.IH" [OF True])
    also have "\<dots> = r\<lparr>calls := calls r @ drop cntr (subscriptions r)\<rparr>"
      using True by (simp add: Cons_nth_drop_Suc)
    finally show ?thesis .
  next
    case False
    then show ?thesis by (subst updateSubscribers_loop.simps) simp
  qed
qed

lemma updateSubscribers_eq:
  "updateSubscribers r = r\<lparr>calls := calls r @ subscriptions r\<rparr>"
  by (simp add: updateSubscribers_def updateSubscribers_loop_eq)

lemma findIndex_from_absent:
  "handler \<notin> set subs \<Longrightarrow> findIndex_from i handler subs = -1"
  by (induction subs arbitrary: i) auto

lemma findIndex_from_present:
  "handler \<in> set subs \<Longrightarrow>
   \<exists>k. findIndex_from i handler subs = i + int k \<and> k < length subs \<and>
       subs ! k = handler \<and> handler \<notin> set (take k subs)"
proof (induction subs arbitrary: i)
  case Nil
  then show ?case by simp
next
  case (Cons sub subs)
  show ?case
  proof (cases "sub = handler")
    case True
    then have "findIndex_from i handler (sub # subs) = i + int 0 \<and> 0 < length (sub # subs) \<and>
      (sub # subs) ! 0 = handler \<and> handler \<notin> set (take 0 (sub # subs))"
      by simp
    then show ?thesis by blast
  next
    case False
    with Cons.prems have "handler \<in> set subs" by simp
    from Cons.IH [OF this, of "i + 1"] obtain k where
      k: "findIndex_from (i + 1) handler subs = i + 1 + int k" "k < length subs"
         "subs ! k = handler" "handler \<notin> set (take k subs)"
      by blast
    have "findIndex_from i handler (sub # subs) = i + int (Suc k) \<and>
          Suc k < length (sub # subs) \<and> (sub # subs) ! Suc k = handler \<and>
          handler \<notin> set (take (Suc k) (sub # subs))"
      using False k by simp
    then show ?thesis by blast
  qed
qed

lemma splice1_first_match:
  "k < length subs \<Longrightarrow> subs ! k = handler \<Longrightarrow> handler \<notin> set (take k subs) \<Longrightarrow>
   splice1 k subs = remove1 handler subs"
proof (induction subs arbitrary: k)
  case Nil
  then show ?case by simp
next
  case (Cons sub subs)
  show ?case
  proof (cases k)
    case 0
    with Cons.prems show ?thesis by (simp add: splice1_def)
  next
    case (Suc j)
    with Cons.prems have "sub \<noteq> handler" "j < length subs" "subs ! j = handler"
      "handler \<notin> set (take j subs)"
      by auto
    with Cons.IH [of j] Suc show ?thesis by (simp add: splice1_def)
  qed
qed

lemma unsubscribe_eq:
  "unsubscribe handler r = r\<lparr>subscriptions := remove1 handler (subscriptions r)\<rparr>"
proof (cases "handler \<in> set (subscriptions r)")
  case True
  from findIndex_from_present [OF True, of 0] obtain k where
    k: "findIndex handler (subscriptions r) = int k" "k < length (subscriptions r)"
       "subscriptions r ! k = handler" "handler \<notin> set (take k (subscriptions r))"
    unfolding findIndex_def by auto
  from splice1_first_match [OF k(2,3,4)] k(1) show ?thesis
    by (simp add: unsubscribe_def)
next
  case False
  then show ?thesis
    by (simp add: unsubscribe_def findIndex_def findIndex_from_absent remove1_idem)
qed

lemma filter_remove1_other:
  "filter (\<lambda>s. s \<noteq> h) (remove1 h xs) = filter (\<lambda>s. s \<noteq> h) xs"
  by (induction xs) auto

text \<open>
  Claim C8. \<open>subscribe\<close> appends the handler to the subscriber list and invokes it
  once, whatever happened before, and changes nothing else; the function it returns
  removes the first registration of that handler, the entries before and after it staying
  as they are, and changes nothing when the handler is not registered.
\<close>

theorem subscribe_contract:
  "subscribe h r = r\<lparr>subscriptions := subscriptions r @ [h], calls := calls r @ [h]\<rparr>
   \<and> unsubscribe h r' = r'\<lparr>subscriptions := remove1 h (subscriptions r')\<rparr>
   \<and> (h \<in> set (subscriptions r') \<longrightarrow>
        (\<exists>pre post. subscriptions r' = pre @ h # post \<and> h \<notin> set pre \<and>
           subscriptions (unsubscribe h r') = pre @ post))
   \<and> (h \<notin> set (subscriptions r') \<longrightarrow> unsubscribe h r' = r')"
proof -
  have a: "subscribe h r = r\<lparr>subscriptions := subscriptions r @ [h], calls := calls r @ [h]\<rparr>"
    by (simp add: subscribe_def Let_def)
  have b: "unsubscribe h r' = r'\<lparr>subscriptions := remove1 h (subscriptions r')\<rparr>"
    by (rule unsubscribe_eq)
  have c: "h \<in> set (subscriptions r') \<longrightarrow>
        (\<exists>pre post. subscriptions r' = pre @ h # post \<and> h \<notin> set pre \<and>
           subscriptions (unsubscribe h r') = pre @ post)"
  proof
    assume "h \<in> set (subscriptions r')"
    then obtain pre post where s: "subscriptions r' = pre @ h # post" "h \<notin> set pre"
      by (auto dest: split_list_first)
    then have "subscriptions (unsubscribe h r') = pre @ post"
      by (simp add: b remove1_append)
    with s show "\<exists>pre post. subscriptions r' = pre @ h # post \<and> h \<notin> set pre \<and>
           subscriptions (unsubscribe h r') = pre @ post" by blast
  qed
  have d: "h \<notin> set (subscriptions r') \<longrightarrow> unsubscribe h r' = r'"
    by (simp add: b remove1_idem)
  from a b c d show ?thesis by blast
qed

theorem subscribe_contract_witness:
  "calls (subscribe 7 (init ([] :: nat heap))) = [7]
   \<and> subscriptions (subscribe 7 (init ([] :: nat heap))) = [7]
   \<and> (7::nat) \<in> set (subscriptions (subscribe 7 (init ([] :: nat heap))))
   \<and> subscriptions (unsubscribe 7 (subscribe 7 (init ([] :: nat heap)))) = []
   \<and> (5::nat) \<notin> set (subscriptions (subscribe 7 (init ([] :: nat heap))))
   \<and> unsubscribe 5 (subscribe 7 (init ([] :: nat heap))) = subscribe 7 (init [])"
proof -
  let ?r = "init ([] :: nat heap)"
  note t7 = subscribe_contract [of 7 ?r "subscribe 7 ?r"]
  note t5 = subscribe_contract [of 5 ?r "subscribe 7 ?r"]
  from t7 have a: "subscribe 7 ?r = ?r\<lparr>subscriptions := subscriptions ?r @ [7], calls := calls ?r @ [7]\<rparr>"
    by (rule conjunct1)
  have s: "subscriptions (subscribe 7 ?r) = [7]" and c: "calls (subscribe 7 ?r) = [7]"
    using a by (simp_all add: init_def)
  from t7 have "unsubscribe 7 (subscribe 7 ?r) =
      (subscribe 7 ?r)\<lparr>subscriptions := remove1 7 (subscriptions (subscribe 7 ?r))\<rparr>"
    by blast
  then have u: "subscriptions (unsubscribe 7 (subscribe 7 ?r)) = []"
    by (simp add: s)
  have n: "(5::nat) \<notin> set (subscriptions (subscribe 7 ?r))"
    by (simp add: s)
  with t5 have v: "unsubscribe 5 (subscribe 7 ?r) = subscribe 7 ?r"
    by blast
  from s c u n v show ?thesis by simp
qed

text \<open>
  Claim C10. A handler subscribed twice is registered twice, at the end of the list and
  in that order; a notification invokes every registration in subscription order, so this
  handler twice; one call of the returned function removes one registration, the first
  found, and two calls remove two, which leaves the registrations as they were before the
  two subscriptions.
\<close>

theorem subscribe_twice:
  "subscriptions (subscribe h (subscribe h r)) = subscriptions r @ [h, h]
   \<and> calls (updateSubscribers (subscribe h (subscribe h r))) =
       calls (subscribe h (subscribe h r)) @ subscriptions r @ [h, h]
   \<and> subscriptions (unsubscribe h (subscribe h (subscribe h r))) =
       remove1 h (subscriptions r @ [h, h])
   \<and> mset (subscriptions (unsubscribe h (unsubscribe h (subscribe h (subscribe h r))))) =
       mset (subscriptions r)
   \<and> filter (\<lambda>s. s \<noteq> h) (subscriptions (unsubscribe h (unsubscribe h (subscribe h (subscribe h r))))) =
       filter (\<lambda>s. s \<noteq> h) (subscriptions r)
   \<and> (h \<notin> set (subscriptions r) \<longrightarrow>
       subscriptions (unsubscribe h (subscribe h (subscribe h r))) = subscriptions r @ [h] \<and>
       subscriptions (unsubscribe h (unsubscribe h (subscribe h (subscribe h r)))) = subscriptions r)"
  by (simp add: subscribe_def Let_def unsubscribe_eq updateSubscribers_eq
      filter_remove1_other remove1_append)

theorem subscribe_twice_witness:
  "(4::nat) \<notin> set (subscriptions (subscribe 9 (init ([] :: nat heap))))
   \<and> subscriptions (subscribe 4 (subscribe 4 (subscribe 9 (init ([] :: nat heap))))) = [9, 4, 4]
   \<and> calls (updateSubscribers (subscribe 4 (subscribe 4 (subscribe 9 (init ([] :: nat heap)))))) =
       [9, 4, 4, 9, 4, 4]
   \<and> subscriptions (unsubscribe 4 (unsubscribe 4 (subscribe 4 (subscribe 4 (subscribe 9 (init ([] :: nat heap))))))) = [9]"
  using subscribe_twice [of 4 "subscribe 9 (init ([] :: nat heap))"]
  by (simp add: subscribe_def init_def Let_def)


section \<open>Facts about the rebuild of the virtual ordering\<close>

lemma accepts_iff: "accepts fs x \<longleftrightarrow> (\<forall>f \<in> set fs. filterFn f x)"
  by (induction fs) auto

lemma retain_shift:
  "retain fs cntr xs = filter (\<lambda>i. accepts fs (xs ! (i - cntr))) [cntr..<cntr + length xs]"
proof (induction xs arbitrary: cntr)
  case Nil
  show ?case by simp
next
  case (Cons x xs)
  have up: "[cntr..<cntr + length (x # xs)] = cntr # [cntr + 1..<cntr + 1 + length xs]"
    using upt_conv_Cons [of cntr "cntr + length (x # xs)"] by simp
  have tl: "filter (\<lambda>i. accepts fs ((x # xs) ! (i - cntr))) [cntr + 1..<cntr + 1 + length xs] =
            filter (\<lambda>i. accepts fs (xs ! (i - (cntr + 1)))) [cntr + 1..<cntr + 1 + length xs]"
  proof (rule filter_cong [OF refl])
    fix i
    assume "i \<in> set [cntr + 1..<cntr + 1 + length xs]"
    then have "i - cntr = Suc (i - (cntr + 1))" by auto
    then show "accepts fs ((x # xs) ! (i - cntr)) = accepts fs (xs ! (i - (cntr + 1)))"
      by simp
  qed
  show ?case
    unfolding up using Cons.IH [of "cntr + 1"] tl by simp
qed

lemma retain_eq:
  "retain fs 0 arr = filter (\<lambda>i. \<forall>f \<in> set fs. filterFn f (arr ! i)) [0..<length arr]"
  using retain_shift [of fs 0 arr] by (simp add: accepts_iff)

lemma mset_insert_stable: "mset (insert_stable cmp arr p qs) = add_mset p (mset qs)"
  by (induction qs) auto

lemma mset_stable_sort: "mset (stable_sort cmp arr ps) = mset ps"
  by (induction ps) (auto simp: mset_insert_stable)

lemma set_stable_sort: "set (stable_sort cmp arr ps) = set ps"
  using mset_stable_sort [of cmp arr ps] by (metis set_mset_mset)

lemma filter_insert_stable_other:
  "\<not> P p \<Longrightarrow> filter P (insert_stable cmp arr p qs) = filter P qs"
  by (induction qs) auto

lemma filter_insert_stable_front:
  "\<forall>q \<in> set qs. P q \<longrightarrow> cmp (arr ! p) (arr ! q) \<le> 0 \<Longrightarrow> P p \<Longrightarrow>
   filter P (insert_stable cmp arr p qs) = p # filter P qs"
  by (induction qs) auto

lemma filter_eq_distinct:
  "distinct xs \<Longrightarrow> q \<in> set xs \<Longrightarrow> filter (\<lambda>r. r = q) xs = [q]"
  by (induction xs) (auto simp: filter_empty_conv)

lemma stable_sort_keeps_order:
  "sorted_wrt (<) ps \<Longrightarrow> p \<in> set ps \<Longrightarrow> q \<in> set ps \<Longrightarrow> p < q \<Longrightarrow>
   cmp (arr ! p) (arr ! q) \<le> 0 \<Longrightarrow> keeps_order p q (stable_sort cmp arr ps)"
proof (induction ps)
  case Nil
  then show ?case by simp
next
  case (Cons x xs)
  let ?P = "\<lambda>r. r = p \<or> r = q"
  from Cons.prems(1) have sx: "sorted_wrt (<) xs" and lt: "\<forall>y \<in> set xs. x < y"
    by simp_all
  show ?case
  proof (cases "x = p")
    case True
    with Cons.prems lt have qin: "q \<in> set xs" and pnot: "p \<notin> set xs"
      by auto
    from sx have "distinct xs" using strict_sorted_iff by blast
    then have d: "distinct (stable_sort cmp arr xs)"
      using mset_stable_sort [of cmp arr xs] by (metis distinct_count_atmost_1 set_mset_mset) 
    have "filter ?P (stable_sort cmp arr xs) = filter (\<lambda>r. r = q) (stable_sort cmp arr xs)"
      by (rule filter_cong) (use pnot in \<open>auto simp: set_stable_sort\<close>)
    also have "\<dots> = [q]"
      using d qin by (simp add: set_stable_sort filter_eq_distinct)
    finally have fq: "filter ?P (stable_sort cmp arr xs) = [q]" .
    have "filter ?P (insert_stable cmp arr p (stable_sort cmp arr xs)) =
          p # filter ?P (stable_sort cmp arr xs)"
      by (rule filter_insert_stable_front) (use pnot Cons.prems(5) in \<open>auto simp: set_stable_sort\<close>)
    with fq True show ?thesis by (simp add: keeps_order_def)
  next
    case False
    with Cons.prems lt have pin: "p \<in> set xs" and xq: "x \<noteq> q" and qin: "q \<in> set xs"
      by auto
    from Cons.IH [OF sx pin qin Cons.prems(4,5)]
    have "keeps_order p q (stable_sort cmp arr xs)" .
    moreover have "filter ?P (insert_stable cmp arr x (stable_sort cmp arr xs)) =
          filter ?P (stable_sort cmp arr xs)"
      by (rule filter_insert_stable_other) (use False xq in auto)
    ultimately show ?thesis by (simp add: keeps_order_def)
  qed
qed


lemma set_insert_stable: "set (insert_stable cmp arr p qs) = insert p (set qs)"
  using mset_insert_stable [of cmp arr p qs] by (metis set_mset_add_mset_insert set_mset_mset)

lemma sorted_insert_stable:
  assumes "consistent cmp arr" and "p < length arr" and "\<forall>q \<in> set qs. q < length arr"
    and "sorted_wrt (\<lambda>i j. cmp (arr ! i) (arr ! j) \<le> 0) qs"
  shows "sorted_wrt (\<lambda>i j. cmp (arr ! i) (arr ! j) \<le> 0) (insert_stable cmp arr p qs)"
  using assms(3,4)
proof (induction qs)
  case Nil
  show ?case by simp
next
  case (Cons q qs)
  have pin: "arr ! p \<in> set arr" using assms(2) by simp
  have qin: "arr ! q \<in> set arr" using Cons.prems(1) by simp
  have rin: "\<forall>r \<in> set qs. arr ! r \<in> set arr" using Cons.prems(1) by simp
  from assms(1) have total: "\<And>a b. a \<in> set arr \<Longrightarrow> b \<in> set arr \<Longrightarrow> cmp a b > 0 \<Longrightarrow> cmp b a \<le> 0"
    and trans: "\<And>a b c. a \<in> set arr \<Longrightarrow> b \<in> set arr \<Longrightarrow> c \<in> set arr \<Longrightarrow>
        cmp a b \<le> 0 \<Longrightarrow> cmp b c \<le> 0 \<Longrightarrow> cmp a c \<le> 0"
    unfolding consistent_def by blast+
  show ?case
  proof (cases "cmp (arr ! p) (arr ! q) > 0")
    case True
    from Cons.prems have "sorted_wrt (\<lambda>i j. cmp (arr ! i) (arr ! j) \<le> 0) (insert_stable cmp arr p qs)"
      by (intro Cons.IH) simp_all
    moreover have "cmp (arr ! q) (arr ! p) \<le> 0"
      using total [OF pin qin True] .
    ultimately show ?thesis
      using True Cons.prems(2) by (simp add: set_insert_stable)
  next
    case False
    then have le: "cmp (arr ! p) (arr ! q) \<le> 0" by simp
    have "\<forall>r \<in> set qs. cmp (arr ! p) (arr ! r) \<le> 0"
    proof
      fix r assume r: "r \<in> set qs"
      with Cons.prems(2) have "cmp (arr ! q) (arr ! r) \<le> 0" by simp
      with le show "cmp (arr ! p) (arr ! r) \<le> 0"
        using trans [OF pin qin] rin r by blast
    qed
    with le False Cons.prems(2) show ?thesis by simp
  qed
qed

lemma sorted_stable_sort:
  "consistent cmp arr \<Longrightarrow> \<forall>p \<in> set ps. p < length arr \<Longrightarrow>
   sorted_wrt (\<lambda>i j. cmp (arr ! i) (arr ! j) \<le> 0) (stable_sort cmp arr ps)"
  by (induction ps) (simp_all add: sorted_insert_stable set_stable_sort)

lemma retain_ascending: "sorted_wrt (<) (retain fs 0 arr)"
  unfolding retain_eq by (rule sorted_wrt_filter) (rule sorted_wrt_upt)

lemma retain_in_range: "\<forall>p \<in> set (retain fs 0 arr). p < length arr"
  unfolding retain_eq by simp

lemma indexer_update_index:
  "index (indexer_update force r) =
     (if isActive r then Some (rebuild (filters r) (compareFn r) (backing r)) else None)"
  by (simp add: indexer_update_def updateSubscribers_eq)

text \<open>
  Claim C1. A recompute of an active index stores the rebuilt ordering. Without a
  comparator the ordering is the positions 0..n-1 in ascending order whose element every
  registered filter accepts. With a comparator it is a permutation of those positions in
  which two retained positions whose elements compare equal stay in their original order,
  and which is sorted by the comparator whenever the comparator orders the elements
  consistently.
\<close>

theorem rebuild_filters_then_stable_sort:
  "rebuild fs None arr = filter (\<lambda>i. \<forall>f \<in> set fs. filterFn f (arr ! i)) [0..<length arr]
   \<and> mset (rebuild fs (Some cmp) arr) = mset (rebuild fs None arr)
   \<and> (p < q \<and> p \<in> set (rebuild fs None arr) \<and> q \<in> set (rebuild fs None arr) \<and>
        cmp (arr ! p) (arr ! q) = 0 \<longrightarrow> keeps_order p q (rebuild fs (Some cmp) arr))
   \<and> (consistent cmp arr \<longrightarrow>
        sorted_wrt (\<lambda>i j. cmp (arr ! i) (arr ! j) \<le> 0) (rebuild fs (Some cmp) arr))
   \<and> index (indexer_update force r) =
        (if isActive r then Some (rebuild (filters r) (compareFn r) (backing r)) else None)"
proof -
  have a: "rebuild fs None arr = filter (\<lambda>i. \<forall>f \<in> set fs. filterFn f (arr ! i)) [0..<length arr]"
    by (simp add: rebuild_def retain_eq)
  have b: "mset (rebuild fs (Some cmp) arr) = mset (rebuild fs None arr)"
    by (simp add: rebuild_def mset_stable_sort)
  have c: "p < q \<and> p \<in> set (rebuild fs None arr) \<and> q \<in> set (rebuild fs None arr) \<and>
        cmp (arr ! p) (arr ! q) = 0 \<longrightarrow> keeps_order p q (rebuild fs (Some cmp) arr)"
    using stable_sort_keeps_order [OF retain_ascending, of p fs arr q cmp arr]
    by (simp add: rebuild_def)
  have d: "consistent cmp arr \<longrightarrow>
        sorted_wrt (\<lambda>i j. cmp (arr ! i) (arr ! j) \<le> 0) (rebuild fs (Some cmp) arr)"
    using sorted_stable_sort [OF _ retain_in_range, of cmp arr fs]
    by (simp add: rebuild_def)
  from a b c d indexer_update_index [of force r] show ?thesis by blast
qed

theorem rebuild_filters_then_stable_sort_witness:
  "rebuild [\<lparr>filterFn = (\<lambda>x. x mod 2 = 0), weight = 1\<rparr>, \<lparr>filterFn = (\<lambda>x. 4 < x), weight = 1\<rparr>]
      None [1, 2, 3, 4, 5, 6, 7, 8, 9, 10 :: int] = [5, 7, 9]
   \<and> consistent by_key [(1, ''a''), (1, ''b''), (0, ''c'')]
   \<and> rebuild [] (Some by_key) [(1, ''a''), (1, ''b''), (0, ''c'')] = [2, 0, 1]
   \<and> keeps_order 0 1 (rebuild [] (Some by_key) [(1, ''a''), (1, ''b''), (0, ''c'')])
   \<and> sorted_wrt (\<lambda>i j. by_key ([(1, ''a''), (1, ''b''), (0, ''c'')] ! i)
         ([(1, ''a''), (1, ''b''), (0, ''c'')] ! j) \<le> 0)
        (rebuild [] (Some by_key) [(1, ''a''), (1, ''b''), (0, ''c'')])"
proof -
  let ?arr = "[(1, ''a''), (1, ''b''), (0, ''c'')] :: (int \<times> string) list"
  have k: "consistent by_key ?arr"
    by (simp add: consistent_def by_key_def)
  have e: "rebuild [] (Some by_key) ?arr = [2, 0, 1]"
    by (simp add: rebuild_def by_key_def)
  have n: "rebuild [] None ?arr = [0, 1, 2]"
    by (simp add: rebuild_def)
  have f: "rebuild [\<lparr>filterFn = (\<lambda>x. x mod 2 = 0), weight = 1\<rparr>, \<lparr>filterFn = (\<lambda>x. 4 < x), weight = 1\<rparr>]
      None [1, 2, 3, 4, 5, 6, 7, 8, 9, 10 :: int] = [5, 7, 9]"
    by (simp add: rebuild_def)
  note t = rebuild_filters_then_stable_sort [of "[]" ?arr by_key 0 1 True "init []"]
  have h: "(0::nat) < 1 \<and> 0 \<in> set (rebuild [] None ?arr) \<and> 1 \<in> set (rebuild [] None ?arr) \<and>
        by_key (?arr ! 0) (?arr ! 1) = 0"
    by (simp add: n by_key_def)
  from t h have o: "keeps_order 0 1 (rebuild [] (Some by_key) ?arr)"
    by blast
  from t k have s: "sorted_wrt (\<lambda>i j. by_key (?arr ! i) (?arr ! j) \<le> 0) (rebuild [] (Some by_key) ?arr)"
    by blast
  from f k e o s show ?thesis by blast
qed


section \<open>Facts about the class\<close>

lemma indexer_update_eq:
  "indexer_update force r =
     r\<lparr>index := (if isActive r then Some (rebuild (filters r) (compareFn r) (backing r)) else None),
       calls := calls r @ subscriptions r\<rparr>"
  by (simp add: indexer_update_def updateSubscribers_eq Let_def)

lemma indexer_update_frame:
  "heap (indexer_update force r) = heap r" "array0 (indexer_update force r) = array0 r"
  "backing (indexer_update force r) = backing r"
  by (simp_all add: indexer_update_eq backing_def split: option.splits)

lemma yield_up_eq: "cntr \<le> length array \<Longrightarrow> yield_up array cntr = map Some (drop cntr array)"
proof (induction array cntr rule: yield_up.induct)
  case (1 array cntr)
  show ?case
  proof (cases "cntr < length array")
    case True
    have "yield_up array cntr = js_nth array cntr # yield_up array (cntr + 1)"
      using True by (subst yield_up.simps) simp
    also have "\<dots> = Some (array ! cntr) # map Some (drop (cntr + 1) array)"
      using True "1.IH" [OF True] by (simp add: js_nth_def)
    also have "\<dots> = map Some (drop cntr array)"
      using True by (simp flip: Cons_nth_drop_Suc)
    finally show ?thesis .
  next
    case False
    with "1.prems" show ?thesis by (subst yield_up.simps) simp
  qed
qed

lemma yield_down_eq:
  "cntr \<le> length array \<Longrightarrow> yield_down array cntr = rev (map Some (take cntr array))"
  by (induction cntr) (simp_all add: js_nth_def take_Suc_conv_app_nth)

lemma install_frame:
  "filters (install data r) = filters r" "compareFn (install data r) = compareFn r"
  "reversed (install data r) = reversed r" "index_reversed (install data r) = index_reversed r"
  "index (install data r) = index r" "subscriptions (install data r) = subscriptions r"
  "calls (install data r) = calls r"
  by (simp_all add: install_def alloc_def split: jsval.splits)

lemma install_array: "install (JArr b) r = r\<lparr>array0 := Some b\<rparr>"
  by (simp add: install_def)

lemma install_iter:
  "install (JIter xs) r = r\<lparr>heap := heap r @ [xs], array0 := Some (length (heap r))\<rparr>"
  by (simp add: install_def alloc_def)

lemma iterable_cases: "isIterable data \<Longrightarrow> (\<exists>b. data = JArr b) \<or> (\<exists>xs. data = JIter xs)"
  by (cases data) simp_all

lemma deref_update:
  "deref (h[a := xs]) b = (if b = a \<and> a < length h then xs else deref h b)"
  by (simp add: deref_def)

lemma deref_append: "a < length h \<Longrightarrow> deref (h @ [xs]) a = deref h a"
  by (simp add: deref_def nth_append)

lemma deref_fresh: "deref (h @ [xs]) (length h) = xs"
  by (simp add: deref_def)

lemma example_view_eq:
  "example_view = \<lparr>heap = [[10, 20, 30]], array0 = Some 0, filters = [], compareFn = None,
     reversed = False, index_reversed = False, index = None, subscriptions = [], calls = []\<rparr>"
  by (simp add: example_view_def install_def init_def)

lemma example_filtered_eq:
  "example_filtered = \<lparr>heap = [[10, 20, 30]], array0 = Some 0,
     filters = [\<lparr>filterFn = (\<lambda>x. 15 < x), weight = 1\<rparr>], compareFn = None,
     reversed = False, index_reversed = False, index = Some [1, 2], subscriptions = [], calls = []\<rparr>"
  by (simp add: example_filtered_def example_view_eq filters_add_def indexer_update_eq isActive_def
      rebuild_def backing_def deref_def)

lemma example_sorted_eq:
  "example_sorted = \<lparr>heap = [[3, 1, 2]], array0 = Some 0, filters = [],
     compareFn = Some (\<lambda>a b. a - b),
     reversed = False, index_reversed = False, index = Some [1, 2, 0], subscriptions = [], calls = []\<rparr>"
  by (simp add: example_sorted_def sort_set_def install_def init_def indexer_update_eq isActive_def
      rebuild_def backing_def deref_def)

text \<open>
  Claim C5. The length getter returns the length of the virtual ordering when the index
  is active, and otherwise the length of the backing array, which is 0 when the backing
  store is absent; this is the length the specification describes. After a recompute, a
  view with an absent backing store has length 0 also when its index is active.
\<close>

theorem get_length_cases:
  "get_length r = spec_length r
   \<and> (isActive r \<longrightarrow> get_length r = index_length r)
   \<and> (\<not> isActive r \<and> array0 r = Some a \<longrightarrow> get_length r = length (deref (heap r) a))
   \<and> (\<not> isActive r \<and> array0 r = None \<longrightarrow> get_length r = 0)
   \<and> (array0 r = None \<longrightarrow> get_length (indexer_update force r) = 0)"
  by (auto simp: get_length_def spec_length_def index_length_def backing_def indexer_update_eq
      isActive_def rebuild_def Let_def split: option.splits)

theorem get_length_cases_witness:
  "\<not> isActive example_view \<and> array0 example_view = Some 0 \<and> get_length example_view = 3
   \<and> isActive example_filtered \<and> index_length example_filtered = 2
   \<and> get_length example_filtered = 2
   \<and> \<not> isActive (init ([] :: int heap)) \<and> array0 (init ([] :: int heap)) = None
   \<and> get_length (init ([] :: int heap)) = 0"
  using get_length_cases [of example_view 0 True] get_length_cases [of example_filtered 0 True]
    get_length_cases [of "init ([] :: int heap)" 0 True]
  by (simp add: example_view_eq example_filtered_eq isActive_def index_length_def deref_def init_def)

text \<open>
  Claim C6. When no filter and no comparator is registered the index is inactive, and
  then the iterator yields the elements of the backing array in storage order, or in
  reverse storage order when the reversed flag is set, and the length of the view is the
  length of the backing array.
\<close>

theorem inactive_iteration:
  "(\<not> isActive r \<longleftrightarrow> filters r = [] \<and> compareFn r = None)
   \<and> (\<not> isActive r \<and> array0 r = Some a \<longrightarrow>
     iterate r = (if reversed r then rev (map Some (deref (heap r) a)) else map Some (deref (heap r) a))
     \<and> get_length r = length (deref (heap r) a))"
  by (simp add: iterate_def get_length_def isActive_def Let_def yield_up_eq yield_down_eq
      split: option.splits)

theorem inactive_iteration_witness:
  "\<not> isActive example_view \<and> array0 example_view = Some 0
   \<and> iterate example_view = [Some 10, Some 20, Some 30]
   \<and> \<not> isActive (snd (set_reversed (JPrim (PBool True)) example_view))
   \<and> array0 (snd (set_reversed (JPrim (PBool True)) example_view)) = Some 0
   \<and> iterate (snd (set_reversed (JPrim (PBool True)) example_view)) = [Some 30, Some 20, Some 10]
   \<and> get_length example_view = 3"
proof -
  have e: "snd (set_reversed (JPrim (PBool True)) example_view) =
      example_view\<lparr>reversed := True, index_reversed := True\<rparr>"
    by (simp add: set_reversed_def Let_def indexer_update_eq isActive_def example_view_eq)
  from inactive_iteration [of example_view 0]
    inactive_iteration [of "example_view\<lparr>reversed := True, index_reversed := True\<rparr>" 0]
  show ?thesis
    unfolding e by (simp add: example_view_eq isActive_def deref_def)
qed

text \<open>
  Claim C7. Setting the reversed flag to a boolean does not throw; it leaves the backing
  store, the filters and the comparator as they were, and the virtual ordering it
  recomputes is the one any forced recompute gives, whatever the flag, so an ordering that
  was up to date stays as it was; iterating after
  setting the flag to true yields the reverse of what iterating after setting it to false
  yields.
\<close>

theorem reversed_flips_iteration_only:
  "fst (set_reversed (JPrim (PBool b)) r) = None
   \<and> iterate (snd (set_reversed (JPrim (PBool True)) r)) =
       rev (iterate (snd (set_reversed (JPrim (PBool False)) r)))
   \<and> index (snd (set_reversed (JPrim (PBool b)) r)) = index (indexer_update True r)
   \<and> (index r = (if isActive r then Some (rebuild (filters r) (compareFn r) (backing r)) else None)
        \<longrightarrow> index (snd (set_reversed (JPrim (PBool b)) r)) = index r)
   \<and> filters (snd (set_reversed (JPrim (PBool b)) r)) = filters r
   \<and> compareFn (snd (set_reversed (JPrim (PBool b)) r)) = compareFn r
   \<and> array0 (snd (set_reversed (JPrim (PBool b)) r)) = array0 r
   \<and> heap (snd (set_reversed (JPrim (PBool b)) r)) = heap r
   \<and> reversed (snd (set_reversed (JPrim (PBool b)) r)) = b"
proof -
  let ?ix = "if isActive r then Some (rebuild (filters r) (compareFn r) (backing r)) else None"
  have act: "\<And>c. isActive (r\<lparr>reversed := c, index_reversed := c\<rparr>) = isActive r"
    by (simp add: isActive_def)
  have bk: "\<And>c. backing (r\<lparr>reversed := c, index_reversed := c\<rparr>) = backing r"
    by (simp add: backing_def split: option.splits)
  have st: "\<And>c. snd (set_reversed (JPrim (PBool c)) r) =
      r\<lparr>reversed := c, index_reversed := c, index := ?ix, calls := calls r @ subscriptions r\<rparr>"
    by (simp add: set_reversed_def Let_def indexer_update_eq act bk)
  have fl: "iterate (snd (set_reversed (JPrim (PBool True)) r)) =
       rev (iterate (snd (set_reversed (JPrim (PBool False)) r)))"
    unfolding st
    by (simp add: iterate_def Let_def isActive_def index_iter_def yield_up_eq yield_down_eq rev_map
        split: option.splits)
  have ok: "fst (set_reversed (JPrim (PBool b)) r) = None"
    by (simp add: set_reversed_def Let_def)
  show ?thesis
    using fl ok by (simp add: st indexer_update_eq)
qed

theorem reversed_flips_iteration_only_witness:
  "iterate (snd (set_reversed (JPrim (PBool False)) example_sorted)) = [Some 1, Some 2, Some 3]
   \<and> iterate (snd (set_reversed (JPrim (PBool True)) example_sorted)) = [Some 3, Some 2, Some 1]
   \<and> index example_sorted = Some [1, 2, 0]
   \<and> index (snd (set_reversed (JPrim (PBool True)) example_sorted)) = index example_sorted"
proof -
  have f: "iterate (snd (set_reversed (JPrim (PBool False)) example_sorted)) = [Some 1, Some 2, Some 3]"
    by (simp add: example_sorted_eq set_reversed_def Let_def indexer_update_eq isActive_def
        rebuild_def backing_def deref_def iterate_def index_iter_def js_nth_def)
  have i: "index (indexer_update True example_sorted) = Some [1, 2, 0]"
    by (simp add: example_sorted_eq indexer_update_eq isActive_def rebuild_def backing_def deref_def)
  have c: "index example_sorted = Some [1, 2, 0]"
    by (simp add: example_sorted_eq)
  from reversed_flips_iteration_only [of True example_sorted] f i c show ?thesis
    by simp
qed

text \<open>
  Claim C9. \<open>setData\<close> throws exactly when its data is neither null nor iterable or its
  replace flag is given and not a boolean, and the reversed setter throws exactly when its
  argument is not a boolean; a call that throws leaves the whole state as it was, so the
  backing store, the flags, the registries, the virtual ordering and the trace of handler
  invocations are unchanged. A call that does not throw notifies every subscriber.
\<close>

theorem throwing_calls_change_nothing:
  "(fst (setData data replace r) \<noteq> None \<longleftrightarrow>
      (\<not> isNull data \<and> \<not> isIterable data) \<or> (\<not> isUndefined replace \<and> typeof replace \<noteq> TBoolean))
   \<and> (fst (setData data replace r) \<noteq> None \<longrightarrow> snd (setData data replace r) = r)
   \<and> (fst (set_reversed v r) \<noteq> None \<longleftrightarrow> typeof v \<noteq> TBoolean)
   \<and> (fst (set_reversed v r) \<noteq> None \<longrightarrow> snd (set_reversed v r) = r)
   \<and> (fst (setData data replace r) = None \<longrightarrow>
        calls (snd (setData data replace r)) = calls r @ subscriptions r)
   \<and> (fst (set_reversed v r) = None \<longrightarrow>
        calls (snd (set_reversed v r)) = calls r @ subscriptions r)"
proof -
  have a: "fst (setData data replace r) \<noteq> None \<longleftrightarrow>
      (\<not> isNull data \<and> \<not> isIterable data) \<or> (\<not> isUndefined replace \<and> typeof replace \<noteq> TBoolean)"
    by (cases "isUndefined replace") (auto simp: setData_def Let_def)
  have b: "fst (setData data replace r) \<noteq> None \<longrightarrow> snd (setData data replace r) = r"
    by (auto simp: setData_def Let_def)
  have c: "fst (set_reversed v r) \<noteq> None \<longleftrightarrow> typeof v \<noteq> TBoolean"
    by (simp add: set_reversed_def Let_def)
  have d: "fst (set_reversed v r) \<noteq> None \<longrightarrow> snd (set_reversed v r) = r"
    by (simp add: set_reversed_def Let_def)
  have e: "fst (setData data replace r) = None \<longrightarrow>
        calls (snd (setData data replace r)) = calls r @ subscriptions r"
    by (auto simp: setData_def Let_def indexer_update_eq install_frame split: option.splits)
  have f: "fst (set_reversed v r) = None \<longrightarrow>
        calls (snd (set_reversed v r)) = calls r @ subscriptions r"
    by (simp add: set_reversed_def Let_def indexer_update_eq)
  from a b c d e f show ?thesis by blast
qed

theorem throwing_calls_change_nothing_witness:
  "setData (JPrim (PNum 5)) JUndefined example_view = (Some DataNotIterable, example_view)
   \<and> setData (JArr 0) (JPrim (PNum 1)) example_view = (Some ReplaceNotBoolean, example_view)
   \<and> set_reversed (JPrim (PStr ''yes'')) example_view = (Some ReversedNotBoolean, example_view)
   \<and> fst (setData (JArr 0) JUndefined example_view) = None"
proof -
  note t1 = throwing_calls_change_nothing [of "JPrim (PNum 5)" JUndefined example_view "JPrim (PStr ''yes'')"]
  note t2 = throwing_calls_change_nothing [of "JArr 0" "JPrim (PNum 1)" example_view "JPrim (PStr ''yes'')"]
  note t3 = throwing_calls_change_nothing [of "JArr 0" JUndefined example_view "JPrim (PStr ''yes'')"]
  have a: "fst (setData (JPrim (PNum 5)) JUndefined example_view) = Some DataNotIterable"
    by (simp add: setData_def)
  have b: "fst (setData (JArr 0) (JPrim (PNum 1)) example_view) = Some ReplaceNotBoolean"
    by (simp add: setData_def)
  have c: "fst (set_reversed (JPrim (PStr ''yes'')) example_view) = Some ReversedNotBoolean"
    by (simp add: set_reversed_def)
  from t1 a have a': "snd (setData (JPrim (PNum 5)) JUndefined example_view) = example_view"
    by simp
  from t2 b have b': "snd (setData (JArr 0) (JPrim (PNum 1)) example_view) = example_view"
    by simp
  from t1 c have c': "snd (set_reversed (JPrim (PStr ''yes'')) example_view) = example_view"
    by simp
  from t3 have d: "fst (setData (JArr 0) JUndefined example_view) = None"
    by simp
  from a a' b b' c c' d show ?thesis
    by (simp add: prod_eq_iff)
qed

lemma setData_default: "setData data JUndefined r = setData data (JPrim (PBool False)) r"
  by (simp add: setData_def)

lemma setData_replace_state:
  "isIterable data \<Longrightarrow> array0 r = None \<or> replace \<Longrightarrow>
   setData data (JPrim (PBool replace)) r = (None, indexer_update True (install data r))"
  by (cases data) (auto simp: setData_def Let_def)

lemma setData_in_place_state:
  "isIterable data \<Longrightarrow> array0 r = Some a \<Longrightarrow> a < length (heap r) \<Longrightarrow>
   setData data (JPrim (PBool False)) r =
     (None, indexer_update True (r\<lparr>heap := (heap r)[a := spread ((heap r)[a := []]) data]\<rparr>))"
  by (cases data) (auto simp: setData_def Let_def deref_def)

text \<open>
  Claim C4. With a backing array installed and iterable new data, \<open>setData\<close> without
  replacement keeps the same array installed, and afterwards that array holds the items
  of the new data; these are the items the data had before the call unless the data is
  the installed array itself, which the truncation has emptied by the time it is spread.
  With replacement the array installed before keeps its contents and the view's backing
  array holds the items of the new data.
\<close>

theorem setData_in_place_keeps_identity:
  assumes "array0 r = Some a" and "a < length (heap r)" and "isIterable data"
  shows "fst (setData data (JPrim (PBool False)) r) = None
    \<and> setData data JUndefined r = setData data (JPrim (PBool False)) r
    \<and> array0 (snd (setData data (JPrim (PBool False)) r)) = Some a
    \<and> deref (heap (snd (setData data (JPrim (PBool False)) r))) a =
        spread (heap (snd (setData data (JPrim (PBool False)) r))) data
    \<and> (data \<noteq> JArr a \<longrightarrow>
        deref (heap (snd (setData data (JPrim (PBool False)) r))) a = spread (heap r) data)
    \<and> (data = JArr a \<longrightarrow> deref (heap (snd (setData data (JPrim (PBool False)) r))) a = [])
    \<and> fst (setData data (JPrim (PBool True)) r) = None
    \<and> deref (heap (snd (setData data (JPrim (PBool True)) r))) a = deref (heap r) a
    \<and> backing (snd (setData data (JPrim (PBool True)) r)) = spread (heap r) data"
proof -
  note ip = setData_in_place_state [OF assms(3,1,2)]
  note rp = setData_replace_state [OF assms(3), of r True, simplified]
  from iterable_cases [OF assms(3)] show ?thesis
  proof (elim disjE exE)
    fix b assume d: "data = JArr b"
    show ?thesis
    proof (cases "b = a")
      case True
      with d have d': "data = JArr a" by simp
      show ?thesis
        using assms(1,2) unfolding d'
        by (simp add: ip [unfolded d'] rp [unfolded d'] indexer_update_frame setData_default
            deref_update install_array backing_def)
    next
      case False
      show ?thesis
        using assms(1,2) False unfolding d
        by (simp add: ip [unfolded d] rp [unfolded d] indexer_update_frame setData_default
            deref_update install_array backing_def)
    qed
  next
    fix xs assume d: "data = JIter xs"
    show ?thesis
      using assms(1,2) unfolding d
      by (simp add: ip [unfolded d] rp [unfolded d] indexer_update_frame setData_default
          deref_update install_iter backing_def deref_append deref_fresh)
  qed
qed

theorem setData_in_place_keeps_identity_witness:
  "array0 example_view = Some 0 \<and> 0 < length (heap example_view) \<and> isIterable (JIter [1, 2 :: int])
   \<and> deref (heap (snd (setData (JIter [1, 2]) (JPrim (PBool False)) example_view))) 0 = [1, 2]
   \<and> array0 (snd (setData (JIter [1, 2]) (JPrim (PBool False)) example_view)) = Some 0
   \<and> deref (heap (snd (setData (JIter [1, 2]) (JPrim (PBool True)) example_view))) 0 = [10, 20, 30]
   \<and> backing (snd (setData (JIter [1, 2]) (JPrim (PBool True)) example_view)) = [1, 2]"
proof -
  have h: "array0 example_view = Some 0" "0 < length (heap example_view)"
    "isIterable (JIter [1, 2 :: int])"
    by (simp_all add: example_view_def install_def init_def)
  have e: "deref (heap example_view) 0 = [10, 20, 30]"
    by (simp add: example_view_def install_def init_def deref_def)
  from setData_in_place_keeps_identity [OF h] h e show ?thesis
    by simp
qed

text \<open>
  Claim C2, at the input where the code departs from it: on a view over \<open>[10, 20, 30]\<close>,
  \<open>setData(null, true)\<close> returns normally and the store still holds the array, whereas
  \<open>setData(null, false)\<close> clears the store.
\<close>

theorem setData_null_replace_keeps_store:
  "fst (setData JNull (JPrim (PBool True)) example_view) = None
   \<and> array0 (snd (setData JNull (JPrim (PBool True)) example_view)) = Some 0
   \<and> backing (snd (setData JNull (JPrim (PBool True)) example_view)) = [10, 20, 30]
   \<and> array0 (snd (setData JNull (JPrim (PBool False)) example_view)) = None"
  by (simp add: setData_def Let_def example_view_def install_def init_def indexer_update_frame
      backing_def deref_def)

text \<open>
  Claim C3 as stated fails for an object that is not iterable and has none of the keys
  \<^verbatim>\<open>data\<close>, \<^verbatim>\<open>filters\<close> and \<^verbatim>\<open>sort\<close>: the constructor returns a view whose backing
  store is absent.
\<close>

theorem constructor_plain_object_counterexample:
  "\<not> isIterable (JObj None None None :: int jsval)
   \<and> \<not> isUndefined (JObj None None None :: int jsval)
   \<and> constructor (JObj None None None) ([] :: int heap) = Inr (init [])
   \<and> array0 (init ([] :: int heap)) = None"
  by (simp add: constructor_def init_def)

text \<open>
  Claim C3, amended. The constructor throws for null, and for every value that is not
  undefined, not an object and not iterable (a boolean, a number, a string, a function).
  A non-iterable object passes these checks, and one that has none of the keys
  \<^verbatim>\<open>data\<close>, \<^verbatim>\<open>filters\<close> and \<^verbatim>\<open>sort\<close> constructs a view whose backing store is absent.
\<close>

theorem constructor_throws_on_null_and_non_objects:
  "(isNull data \<longrightarrow> constructor data h = Inl DataNotIterable)
   \<and> (\<not> isUndefined data \<and> typeof data \<noteq> TObject \<and> \<not> isIterable data \<longrightarrow>
        constructor data h = Inl DataNotIterable)
   \<and> constructor (JObj None None None) h = Inr (init h)
   \<and> array0 (init h) = None"
  by (simp add: constructor_def init_def)

theorem constructor_throws_on_null_and_non_objects_witness:
  "isNull (JNull :: int jsval)
   \<and> constructor JNull ([] :: int heap) = Inl DataNotIterable
   \<and> \<not> isUndefined (JPrim (PNum 5) :: int jsval)
   \<and> typeof (JPrim (PNum 5) :: int jsval) \<noteq> TObject
   \<and> \<not> isIterable (JPrim (PNum 5) :: int jsval)
   \<and> constructor (JPrim (PNum 5)) ([] :: int heap) = Inl DataNotIterable
   \<and> constructor (JObj None None None) ([] :: int heap) = Inr (init [])"
  using constructor_throws_on_null_and_non_objects [of JNull "[] :: int heap"]
    constructor_throws_on_null_and_non_objects [of "JPrim (PNum 5)" "[] :: int heap"]
  by simp

end
